theory Spec2Isabelle
  imports Main
begin

section \<open>Data model of parser.go\<close>

text \<open>
  A Go string is taken as the sequence of its runes, and a rune as one \<open>char\<close>:
  \<open>[]rune(text)\<close> and \<open>string([]rune{r})\<close> are then the identity and the one-element
  string.
\<close>

type_synonym rune = char

text \<open>
  The dynamic values of \<open>interface{}\<close> that a grammar can return: \<open>nil\<close>, a \<open>string\<close>,
  a \<open>[]interface{}\<close>, a \<open>TaggedMatch\<close> struct (fields \<open>Match\<close>, \<open>Tag\<close>, in the
  struct's order), or a value of any other type (only a \<open>Node\<close> transform makes one).
\<close>

datatype match =
    Nil
  | Scalar string
  | Sequence "match list"
  | TaggedMatch match string
  | Opaque nat

text \<open>
  The dynamic values of \<open>error\<close>: a \<open>fatalError\<close> struct wrapping an error, the value
  of a \<open>fmt.Errorf\<close> call (kept as its format string and arguments), or an error made
  outside the package (by the cursor or by a \<open>Node\<close> transform), kept as its message.
\<close>

datatype error =
    External string
  | Errorf string "fmtarg list"
  | fatalError error
and fmtarg =
    ARune rune
  | AString string
  | AErrors "error list"

text \<open>The type assertion \<open>err.(fatalError)\<close>.\<close>

fun isFE :: "error \<Rightarrow> bool" where
  "isFE (fatalError e) = True"
| "isFE (External s) = False"
| "isFE (Errorf f as) = False"

text \<open>
  What a call of a grammar does: it returns the pair \<open>(interface{}, error)\<close>, the error
  \<open>None\<close> for Go's \<open>nil\<close>, or it panics.
\<close>

datatype outcome =
    Return match "error option"
  | Panic

text \<open>
  The interface \<open>StateReader\<close>: its three methods over the cursor's mutable state
  \<open>'s\<close>, with checkpoints of type \<open>'k\<close>. \<open>ReadRune\<close> returns the rune or the
  reader's error, and the state after the call. The type \<open>fatalError\<close> is not exported,
  so a reader's own error is never one: it is kept as its message.
\<close>

record ('s, 'k) StateReader =
  ReadRune :: "'s \<Rightarrow> (string + rune) \<times> 's"
  State :: "'s \<Rightarrow> 'k"
  RestoreState :: "'k \<Rightarrow> 's \<Rightarrow> 's"

text \<open>
  \<open>type Grammar func(StateReader) (interface{}, error)\<close>: the call \<open>g(sr)\<close> on a
  reader whose state is \<open>c\<close> is \<open>g sr c\<close>, and returns the state it leaves.
\<close>

type_synonym ('s, 'k) Grammar = "('s, 'k) StateReader \<Rightarrow> 's \<Rightarrow> outcome \<times> 's"

text \<open>
  The package \<open>regexp\<close> of Go's library is not part of the repository: \<open>Set\<close> takes
  it as a parameter. \<open>Compile\<close> returns \<open>None\<close> where Go returns
  \<open>(nil, err)\<close>.
\<close>

record 'r regexp_pkg =
  Compile :: "string \<Rightarrow> 'r option"
  MatchString :: "'r \<Rightarrow> string \<Rightarrow> bool"

section \<open>The combinators\<close>

text \<open>\<open>Escaper = strings.NewReplacer("\n", "\\n", "\t", "\\t")\<close>, and its \<open>Replace\<close>.\<close>

fun Escaper_Replace :: "string \<Rightarrow> string" where
  "Escaper_Replace [] = []"
| "Escaper_Replace (c # cs) =
     (if c = CHR 0x0A then [CHR 0x5C, CHR ''n''] @ Escaper_Replace cs
      else if c = CHR 0x09 then [CHR 0x5C, CHR ''t''] @ Escaper_Replace cs
      else c # Escaper_Replace cs)"

definition Node :: "('s, 'k) Grammar \<Rightarrow> (match \<Rightarrow> match \<times> error option) \<Rightarrow> ('s, 'k) Grammar" where
  "Node g node = (\<lambda>sr c.
     case g sr c of
       (Panic, c') \<Rightarrow> (Panic, c')
     | (Return m (Some err), c') \<Rightarrow> (Return Nil (Some err), c')
     | (Return m None, c') \<Rightarrow> (case node m of (v, e) \<Rightarrow> (Return v e, c')))"

text \<open>\<open>Resolve\<close> calls the grammar its pointer holds at the time of the call.\<close>

definition Resolve :: "('s, 'k) Grammar \<Rightarrow> ('s, 'k) Grammar" where
  "Resolve g = (\<lambda>sr c. g sr c)"

text \<open>
  \<open>regset\<close> is \<open>nil\<close> when the compilation failed (its error is dropped), and
  \<open>regset.MatchString\<close> on a \<open>nil\<close> pointer panics.
\<close>

definition Set :: "'r regexp_pkg \<Rightarrow> string \<Rightarrow> ('s, 'k) Grammar" where
  "Set rx set0 =
     (let set = Escaper_Replace set0;
          regset = Compile rx (''['' @ set @ '']'')
      in (\<lambda>sr c.
        let state = State sr c in
        case ReadRune sr c of
          (Inl err, c') \<Rightarrow> (Return Nil (Some (External err)), RestoreState sr state c')
        | (Inr r, c') \<Rightarrow>
            (let s = [r] in
             case regset of
               None \<Rightarrow> (Panic, c')
             | Some re \<Rightarrow>
                 if MatchString rx re s then (Return (Scalar s) None, c')
                 else (Return Nil (Some (Errorf ''Expected \"%s\", got %q'' [AString set, AString s])),
                       RestoreState sr state c'))))"

fun Lit_loop :: "('s, 'k) StateReader \<Rightarrow> 'k \<Rightarrow> string \<Rightarrow> rune list \<Rightarrow> 's \<Rightarrow> outcome \<times> 's" where
  "Lit_loop sr state text [] c = (Return (Scalar text) None, c)"
| "Lit_loop sr state text (r # rs) c =
     (case ReadRune sr c of
        (Inl err, c') \<Rightarrow> (Return Nil (Some (External err)), RestoreState sr state c')
      | (Inr rr, c') \<Rightarrow>
          if rr \<noteq> r
          then (Return Nil (Some (Errorf ''Expected %q, got %q'' [ARune r, ARune rr])),
                RestoreState sr state c')
          else Lit_loop sr state text rs c')"

definition Lit :: "string \<Rightarrow> ('s, 'k) Grammar" where
  "Lit text = (let rs = text in (\<lambda>sr c. let state = State sr c in Lit_loop sr state text rs c))"

fun And_loop :: "('s, 'k) StateReader \<Rightarrow> 'k \<Rightarrow> ('s, 'k) Grammar list \<Rightarrow> match list \<Rightarrow> 's \<Rightarrow> outcome \<times> 's" where
  "And_loop sr state [] matches c = (Return (Sequence matches) None, c)"
| "And_loop sr state (g # gs) matches c =
     (case g sr c of
        (Panic, c') \<Rightarrow> (Panic, c')
      | (Return m (Some err), c') \<Rightarrow> (Return Nil (Some err), RestoreState sr state c')
      | (Return m None, c') \<Rightarrow>
          And_loop sr state gs (if m \<noteq> Nil then matches @ [m] else matches) c')"

definition And :: "('s, 'k) Grammar list \<Rightarrow> ('s, 'k) Grammar" where
  "And gs = (\<lambda>sr c. let state = State sr c in And_loop sr state gs [] c)"

fun Or_loop :: "('s, 'k) StateReader \<Rightarrow> 'k \<Rightarrow> ('s, 'k) Grammar list \<Rightarrow> error list \<Rightarrow> 's \<Rightarrow> outcome \<times> 's" where
  "Or_loop sr state [] errs c =
     (Return Nil (Some (Errorf ''Or error, expected: (%v)'' [AErrors errs])), c)"
| "Or_loop sr state (g # gs) errs c =
     (case g sr c of
        (Panic, c') \<Rightarrow> (Panic, c')
      | (Return m None, c') \<Rightarrow> (Return m None, c')
      | (Return m (Some err), c') \<Rightarrow>
          if isFE err then (Return Nil (Some err), c')
          else Or_loop sr state gs (errs @ [err]) (RestoreState sr state c'))"

definition Or :: "('s, 'k) Grammar list \<Rightarrow> ('s, 'k) Grammar" where
  "Or gs = (\<lambda>sr c. let state = State sr c in Or_loop sr state gs [] c)"

text \<open>\<open>int(^uint(0) >> 1)\<close>, the largest \<open>int\<close>, on a platform whose \<open>int\<close> has 64 bits.\<close>

definition MaxInt :: int where
  "MaxInt = 2 ^ 63 - 1"

function Mult_loop :: "('s, 'k) StateReader \<Rightarrow> 'k \<Rightarrow> int \<Rightarrow> int \<Rightarrow> ('s, 'k) Grammar \<Rightarrow> int \<Rightarrow> match list \<Rightarrow> 's \<Rightarrow> outcome \<times> 's" where
  "Mult_loop sr state n m g i ms c =
     (if i < m then
        (case g sr c of
           (Panic, c') \<Rightarrow> (Panic, c')
         | (Return match (Some err), c') \<Rightarrow>
             if isFE err then (Return Nil (Some err), c')
             else if i < n then (Return Nil (Some err), RestoreState sr state c')
             else (Return (Sequence ms) None, c')
         | (Return match None, c') \<Rightarrow> Mult_loop sr state n m g (i + 1) (ms @ [match]) c')
      else (Return (Sequence ms) None, c))"
  by pat_completeness auto
termination
  by (relation "measure (\<lambda>(sr, state, n, m, g, i, ms, c). nat (m - i))") auto

declare Mult_loop.simps [simp del]

definition Mult :: "int \<Rightarrow> int \<Rightarrow> ('s, 'k) Grammar \<Rightarrow> ('s, 'k) Grammar" where
  "Mult n m0 g =
     (let m = (if m0 = 0 then MaxInt else m0)
      in (\<lambda>sr c. let state = State sr c in Mult_loop sr state n m g 0 [] c))"

definition Optional :: "('s, 'k) Grammar \<Rightarrow> ('s, 'k) Grammar" where
  "Optional g = Mult 0 1 g"

definition Ignore :: "('s, 'k) Grammar \<Rightarrow> ('s, 'k) Grammar" where
  "Ignore g = (\<lambda>sr c.
     case g sr c of
       (Panic, c') \<Rightarrow> (Panic, c')
     | (Return m (Some err), c') \<Rightarrow> (Return Nil (Some err), c')
     | (Return m None, c') \<Rightarrow> (Return Nil None, c'))"

definition Require :: "('s, 'k) Grammar list \<Rightarrow> ('s, 'k) Grammar" where
  "Require gs =
     (let g = And gs
      in (\<lambda>sr c.
        case g sr c of
          (Panic, c') \<Rightarrow> (Panic, c')
        | (Return m (Some err), c') \<Rightarrow> (Return Nil (Some (fatalError err)), c')
        | (Return m None, c') \<Rightarrow> (Return m None, c')))"

definition Tag :: "string \<Rightarrow> ('s, 'k) Grammar \<Rightarrow> ('s, 'k) Grammar" where
  "Tag tag g = (\<lambda>sr c.
     case g sr c of
       (Panic, c') \<Rightarrow> (Panic, c')
     | (Return m (Some err), c') \<Rightarrow> (Return Nil (Some err), c')
     | (Return m None, c') \<Rightarrow> (let tm = TaggedMatch m tag in (Return tm None, c')))"

section \<open>The helpers on match trees\<close>

definition TagMatch :: "string \<Rightarrow> match \<Rightarrow> match" where
  "TagMatch tag m = TaggedMatch m tag"

fun GetTag :: "match \<Rightarrow> string \<Rightarrow> match"
  and GetTag_loop :: "match list \<Rightarrow> string \<Rightarrow> match" where
  "GetTag (Sequence ms) tag = GetTag_loop ms tag"
| "GetTag (TaggedMatch m t) tag = (if tag = t then m else GetTag m tag)"
| "GetTag Nil tag = Nil"
| "GetTag (Scalar s) tag = Nil"
| "GetTag (Opaque v) tag = Nil"
| "GetTag_loop [] tag = Nil"
| "GetTag_loop (mi # ms) tag =
     (let tm = GetTag mi tag in if tm \<noteq> Nil then tm else GetTag_loop ms tag)"

fun String :: "match \<Rightarrow> string" where
  "String (Sequence ms) = concat (map String ms)"
| "String (Scalar s) = s"
| "String Nil = []"
| "String (TaggedMatch m t) = []"
| "String (Opaque v) = []"

section \<open>A cursor over a text\<close>

text \<open>
  The repository has no implementation of \<open>StateReader\<close>. For evaluation on concrete
  inputs: the cursor over a fixed text whose state is the index of the next rune, whose
  checkpoint is that index, and whose read at the end fails with \<open>io.EOF\<close>.
\<close>

definition string_reader :: "string \<Rightarrow> (nat, nat) StateReader" where
  "string_reader input =
     \<lparr> ReadRune = (\<lambda>p. if p < length input then (Inr (input ! p), Suc p) else (Inl ''EOF'', p)),
       State = (\<lambda>p. p),
       RestoreState = (\<lambda>k p. k) \<rparr>"

text \<open>
  A stand-in for \<open>regexp\<close> on classes of plain characters, for evaluation: it compiles
  \<open>[\<close>, one or more letters or digits, \<open>]\<close> to the list of these characters, and a
  string matches when one of its characters is in the list. It rejects every other
  pattern; on the empty class \<open>[]\<close>, Go's \<open>regexp.Compile\<close> fails too (missing
  closing bracket).
\<close>

definition plain :: "char \<Rightarrow> bool" where
  "plain ch = (ch \<in> set ''abcdefghijklmnopqrstuvwxyzABCDEFGHIJKLMNOPQRSTUVWXYZ0123456789'')"

definition plain_class_regexp :: "string regexp_pkg" where
  "plain_class_regexp =
     \<lparr> Compile = (\<lambda>p.
         if 3 \<le> length p \<and> hd p = CHR ''['' \<and> last p = CHR '']'' \<and> list_all plain (butlast (tl p))
         then Some (butlast (tl p)) else None),
       MatchString = (\<lambda>re s. list_ex (\<lambda>ch. ch \<in> set re) s) \<rparr>"

text \<open>
  A transform for \<open>Node\<close>, for evaluation: it fails on the scalar \<open>b\<close> with an ordinary
  error and returns every other match as it is.
\<close>

definition reject_b :: "match \<Rightarrow> match \<times> error option" where
  "reject_b m = (if m = Scalar ''b'' then (Nil, Some (External ''rejected'')) else (m, None))"

section \<open>Notions the properties are stated with\<close>

text \<open>
  \<open>applications k g sr c\<close>: \<open>g\<close> called \<open>k\<close> times in a row from the cursor state
  \<open>c\<close>, each call succeeding; the matches in order and the state after the last call.
  \<open>None\<close> when one of the \<open>k\<close> calls fails or panics.
\<close>

fun applications :: "nat \<Rightarrow> ('s, 'k) Grammar \<Rightarrow> ('s, 'k) StateReader \<Rightarrow> 's \<Rightarrow> (match list \<times> 's) option" where
  "applications 0 g sr c = Some ([], c)"
| "applications (Suc k) g sr c =
     (case g sr c of
        (Return m None, c') \<Rightarrow>
          (case applications k g sr c' of
             None \<Rightarrow> None
           | Some (ms, c'') \<Rightarrow> Some (m # ms, c''))
      | (Return m (Some err), c') \<Rightarrow> None
      | (Panic, c') \<Rightarrow> None)"

text \<open>
  \<open>read_runes sr k c\<close>: \<open>k\<close> calls of \<open>ReadRune\<close> in a row from the state \<open>c\<close>, each
  returning a rune; the runes and the state after the last call.
\<close>

fun read_runes :: "('s, 'k) StateReader \<Rightarrow> nat \<Rightarrow> 's \<Rightarrow> (rune list \<times> 's) option" where
  "read_runes sr 0 c = Some ([], c)"
| "read_runes sr (Suc k) c =
     (case ReadRune sr c of
        (Inl err, c') \<Rightarrow> None
      | (Inr r, c') \<Rightarrow>
          (case read_runes sr k c' of
             None \<Rightarrow> None
           | Some (rs, c'') \<Rightarrow> Some (r # rs, c'')))"

text \<open>\<open>g\<close>, called at the cursor state \<open>c\<close>, fails with the error \<open>e\<close>, which is not fatal.\<close>

definition fails_recoverably :: "('s, 'k) StateReader \<Rightarrow> 's \<Rightarrow> ('s, 'k) Grammar \<Rightarrow> error \<Rightarrow> bool" where
  "fails_recoverably sr c g e =
     (case g sr c of
        (Return m (Some err), c') \<Rightarrow> err = e \<and> \<not> isFE e
      | (Return m None, c') \<Rightarrow> False
      | (Panic, c') \<Rightarrow> False)"

text \<open>
  \<open>tagged_children m tag\<close>: the children of the tagged sub-matches of \<open>m\<close> labelled
  \<open>tag\<close>, in depth-first order, left to right; the search goes into a tagged match
  with another label and not into one with this label.
\<close>

fun tagged_children :: "match \<Rightarrow> string \<Rightarrow> match list" where
  "tagged_children (Sequence ms) tag = concat (map (\<lambda>mi. tagged_children mi tag) ms)"
| "tagged_children (TaggedMatch m t) tag = (if tag = t then [m] else tagged_children m tag)"
| "tagged_children Nil tag = []"
| "tagged_children (Scalar s) tag = []"
| "tagged_children (Opaque v) tag = []"

text \<open>
  \<open>GetTag\<close> in the words of the specification: the child of the first tagged sub-match
  with the label, or \<open>nil\<close> when there is none.
\<close>

definition GetTag_spec :: "match \<Rightarrow> string \<Rightarrow> match" where
  "GetTag_spec m tag = (case tagged_children m tag of [] \<Rightarrow> Nil | x # xs \<Rightarrow> x)"

text \<open>The first element that is not \<open>nil\<close>, or \<open>nil\<close>.\<close>

definition first_non_nil :: "match list \<Rightarrow> match" where
  "first_non_nil xs = (case filter (\<lambda>x. x \<noteq> Nil) xs of [] \<Rightarrow> Nil | x # ys \<Rightarrow> x)"

text \<open>
  The grammars built from the combinators of the package, with the regexp package \<open>rx\<close>
  for \<open>Set\<close>; for \<open>Node\<close>, with a transform whose failures are all fatal.
\<close>

inductive built :: "'r regexp_pkg \<Rightarrow> ('s, 'k) Grammar \<Rightarrow> bool" for rx :: "'r regexp_pkg" where
  built_Lit: "built rx (Lit t)"
| built_Set: "built rx (Set rx s)"
| built_And: "(\<And>g. g \<in> set gs \<Longrightarrow> built rx g) \<Longrightarrow> built rx (And gs)"
| built_Or: "(\<And>g. g \<in> set gs \<Longrightarrow> built rx g) \<Longrightarrow> built rx (Or gs)"
| built_Mult: "built rx g \<Longrightarrow> built rx (Mult n m g)"
| built_Optional: "built rx g \<Longrightarrow> built rx (Optional g)"
| built_Ignore: "built rx g \<Longrightarrow> built rx (Ignore g)"
| built_Require: "(\<And>g. g \<in> set gs \<Longrightarrow> built rx g) \<Longrightarrow> built rx (Require gs)"
| built_Tag: "built rx g \<Longrightarrow> built rx (Tag tag g)"
| built_Resolve: "built rx g \<Longrightarrow> built rx (Resolve g)"
| built_Node: "built rx g \<Longrightarrow> (\<And>m v e. node m = (v, Some e) \<Longrightarrow> isFE e) \<Longrightarrow> built rx (Node g node)"

text \<open>
  The grammars built from the combinators that neither tag, nor ignore, nor transform
  what they match.
\<close>

inductive textual :: "'r regexp_pkg \<Rightarrow> ('s, 'k) Grammar \<Rightarrow> bool" for rx :: "'r regexp_pkg" where
  textual_Lit: "textual rx (Lit t)"
| textual_Set: "textual rx (Set rx s)"
| textual_And: "(\<And>g. g \<in> set gs \<Longrightarrow> textual rx g) \<Longrightarrow> textual rx (And gs)"
| textual_Or: "(\<And>g. g \<in> set gs \<Longrightarrow> textual rx g) \<Longrightarrow> textual rx (Or gs)"
| textual_Mult: "textual rx g \<Longrightarrow> textual rx (Mult n m g)"
| textual_Optional: "textual rx g \<Longrightarrow> textual rx (Optional g)"
| textual_Require: "(\<And>g. g \<in> set gs \<Longrightarrow> textual rx g) \<Longrightarrow> textual rx (Require gs)"
| textual_Resolve: "textual rx g \<Longrightarrow> textual rx (Resolve g)"

section \<open>Flatten: \<open>String\<close>\<close>

text \<open>
  C1. The claim: \<open>String\<close> returns the concatenation, left to right, of all the scalars
  reachable from a match tree, those inside tagged wrappers included, so that it gives
  back the text a grammar consumed. The type switch of \<open>String\<close> has no case for
  \<open>TaggedMatch\<close> (\<open>GetTag\<close> and \<open>GetTags\<close> have one): on the match that
  \<open>Tag("x", Lit("a"))\<close> returns over the text \<open>a\<close>, it returns the empty string.
\<close>

theorem String_drops_tagged_text:
  "Tag ''x'' (Lit ''a'') (string_reader ''a'') 0 = (Return (TaggedMatch (Scalar ''a'') ''x'') None, 1)
   \<and> String (TaggedMatch (Scalar ''a'') ''x'') = ''''"
  by (simp add: Tag_def Lit_def string_reader_def)

section \<open>Checkpoint symmetry and \<open>Node\<close>\<close>

text \<open>
  C2. The claim: a grammar built from the combinators that fails recoverably leaves the
  cursor where it was, also \<open>Node(g, transform)\<close> when the transform fails. \<open>Node\<close>
  takes no checkpoint: when \<open>Lit("a")\<close> has read the \<open>a\<close> and the transform fails with
  an ordinary error, the failure is returned with the cursor after the \<open>a\<close>. \<open>Mult\<close>,
  which on a late failure of its child returns with the cursor as the child left it, then
  succeeds with no match and the \<open>a\<close> consumed.
\<close>

theorem Node_failed_transform_keeps_position:
  "Node (Lit ''a'') (\<lambda>m. (Nil, Some (External ''rejected''))) (string_reader ''a'') 0
     = (Return Nil (Some (External ''rejected'')), 1)
   \<and> Mult 0 0 (Node (Lit ''a'') (\<lambda>m. (Nil, Some (External ''rejected'')))) (string_reader ''a'') 0
     = (Return (Sequence []) None, 1)"
  by (simp add: Mult_def Mult_loop.simps MaxInt_def Node_def Lit_def string_reader_def)

section \<open>Sequences without placeholders\<close>

text \<open>
  C3. The claim: no sequence that \<open>And\<close> or \<open>Mult\<close> returns holds a \<open>nil\<close> element.
  \<open>And\<close> appends a child's match only when it is not \<open>nil\<close>; \<open>Mult\<close> appends it
  always: repeating \<open>Ignore(Lit("a"))\<close> over the text \<open>a\<close> returns the sequence of one
  \<open>nil\<close>.
\<close>

theorem Mult_keeps_nil_children:
  "Mult 0 0 (Ignore (Lit ''a'')) (string_reader ''a'') 0 = (Return (Sequence [Nil]) None, 1)"
  by (simp add: Mult_def Ignore_def Lit_def string_reader_def MaxInt_def Mult_loop.simps)

section \<open>\<open>Set\<close> on a class that does not compile\<close>

text \<open>
  C4. The claim: \<open>Set(set)\<close> on a malformed class can be built, and calling it does not
  panic. It can be built; but whenever the compilation of the class fails and the cursor
  has a rune to read, the call panics, on the \<open>nil\<close> regexp.
\<close>

theorem Set_compile_failure_panics:
  assumes "Compile rx (''['' @ Escaper_Replace set0 @ '']'') = None"
    and "ReadRune sr c = (Inr r, c')"
  shows "Set rx set0 sr c = (Panic, c')"
  using assms by (simp add: Set_def Let_def)

theorem Set_compile_failure_panics_witness:
  "Compile plain_class_regexp (''['' @ Escaper_Replace '''' @ '']'') = None
   \<and> ReadRune (string_reader ''a'') 0 = (Inr (CHR ''a''), 1)
   \<and> Set plain_class_regexp '''' (string_reader ''a'') 0 = (Panic, 1)"
proof -
  have compile: "Compile plain_class_regexp (''['' @ Escaper_Replace '''' @ '']'') = None"
    by (simp add: plain_class_regexp_def)
  have read: "ReadRune (string_reader ''a'') 0 = (Inr (CHR ''a''), 1)"
    by (simp add: string_reader_def)
  from Set_compile_failure_panics [OF compile read] compile read show ?thesis
    by simp
qed

section \<open>\<open>And\<close> is atomic\<close>

lemma And_loop_append:
  "And_loop sr st pre acc c = (Return (Sequence ms) None, c1)
   \<Longrightarrow> And_loop sr st (pre @ rest) acc c = And_loop sr st rest ms c1"
proof (induction pre arbitrary: acc c)
  case Nil
  then show ?case by simp
next
  case (Cons g pre)
  then show ?case
    by (auto split: prod.splits outcome.splits option.splits if_splits)
qed

lemma And_loop_failure:
  "And_loop sr st gs acc c = (Return x (Some e), c')
   \<Longrightarrow> x = Nil \<and> (\<exists>c2. c' = RestoreState sr st c2)"
proof (induction gs arbitrary: acc c)
  case Nil
  then show ?case by simp
next
  case (Cons g gs)
  then show ?case
    by (fastforce split: prod.splits outcome.splits option.splits if_splits)
qed

text \<open>
  C5. When the components \<open>pre\<close> of \<open>And(pre..., g, post...)\<close> have all succeeded
  (\<open>And\<close> on them alone succeeds, leaving the cursor at \<open>c1\<close>) and the next component
  \<open>g\<close> fails there with the error \<open>e\<close>, fatal or not, then \<open>And\<close> returns \<open>nil\<close> and
  the same error \<open>e\<close>, after restoring the checkpoint it took on entry; for a cursor
  whose restore gives back the state that was captured, the cursor is where it was
  before the call. Nothing depends on how many components \<open>pre\<close> holds.
\<close>

theorem And_failure_restores_checkpoint:
  assumes "And pre sr c = (Return (Sequence ms) None, c1)"
    and "g sr c1 = (Return m (Some e), c2)"
  shows "And (pre @ g # post) sr c = (Return Nil (Some e), RestoreState sr (State sr c) c2)
         \<and> ((\<forall>a b. RestoreState sr (State sr a) b = a) \<longrightarrow>
              And (pre @ g # post) sr c = (Return Nil (Some e), c))"
proof -
  from assms(1) have "And_loop sr (State sr c) pre [] c = (Return (Sequence ms) None, c1)"
    by (simp add: And_def)
  then have "And_loop sr (State sr c) (pre @ g # post) [] c
             = And_loop sr (State sr c) (g # post) ms c1"
    by (rule And_loop_append)
  with assms(2) have "And (pre @ g # post) sr c
                      = (Return Nil (Some e), RestoreState sr (State sr c) c2)"
    by (simp add: And_def)
  then show ?thesis by simp
qed

theorem And_failure_restores_checkpoint_witness:
  "And [Lit ''a'', Lit ''b''] (string_reader ''abd'') 0
     = (Return (Sequence [Scalar ''a'', Scalar ''b'']) None, 2)
   \<and> Require [Lit ''c''] (string_reader ''abd'') 2
     = (Return Nil (Some (fatalError (Errorf ''Expected %q, got %q'' [ARune (CHR ''c''), ARune (CHR ''d'')]))), 2)
   \<and> And ([Lit ''a'', Lit ''b''] @ Require [Lit ''c''] # [Lit ''d'']) (string_reader ''abd'') 0
     = (Return Nil (Some (fatalError (Errorf ''Expected %q, got %q'' [ARune (CHR ''c''), ARune (CHR ''d'')]))), 0)"
proof -
  have pre: "And [Lit ''a'', Lit ''b''] (string_reader ''abd'') 0
     = (Return (Sequence [Scalar ''a'', Scalar ''b'']) None, 2)"
    by (simp add: And_def Lit_def string_reader_def)
  have g: "Require [Lit ''c''] (string_reader ''abd'') 2
     = (Return Nil (Some (fatalError (Errorf ''Expected %q, got %q'' [ARune (CHR ''c''), ARune (CHR ''d'')]))), 2)"
    by (simp add: Require_def And_def Lit_def string_reader_def)
  have law: "\<forall>a b. RestoreState (string_reader ''abd'') (State (string_reader ''abd'') a) b = a"
    by (simp add: string_reader_def)
  from And_failure_restores_checkpoint [where g = "Require [Lit ''c'']" and post = "[Lit ''d'']", OF pre g]
    law pre g show ?thesis
    by simp
qed

section \<open>\<open>Or\<close> tries its alternatives in order\<close>

lemma Or_loop_skip:
  assumes law: "\<forall>a b. RestoreState sr (State sr a) b = a"
  shows "list_all2 (fails_recoverably sr c) pre es
   \<Longrightarrow> Or_loop sr (State sr c) (pre @ rest) errs c = Or_loop sr (State sr c) rest (errs @ es) c"
proof (induction pre arbitrary: es errs)
  case Nil
  then show ?case by simp
next
  case (Cons g pre)
  from Cons.prems obtain e es' where es: "es = e # es'"
    and g: "fails_recoverably sr c g e" and rest: "list_all2 (fails_recoverably sr c) pre es'"
    by (auto simp: list_all2_Cons1)
  from g obtain m c' where run: "g sr c = (Return m (Some e), c')" and nf: "\<not> isFE e"
    by (auto simp: fails_recoverably_def split: prod.splits outcome.splits option.splits)
  have "Or_loop sr (State sr c) ((g # pre) @ rest) errs c
        = Or_loop sr (State sr c) (pre @ rest) (errs @ [e]) c"
    using run nf law by simp
  also have "\<dots> = Or_loop sr (State sr c) rest ((errs @ [e]) @ es') c"
    by (rule Cons.IH [OF rest])
  finally show ?case by (simp add: es)
qed

text \<open>
  C6. For a cursor whose restore gives back the state that was captured, and alternatives
  \<open>pre\<close> that each fail at the entry state \<open>c\<close> with errors \<open>es\<close>, none of them fatal:
  when the next alternative \<open>g\<close> succeeds, \<open>Or(pre..., g, post...)\<close> returns its match and
  cursor as they are; when \<open>g\<close> fails with a fatal error, \<open>Or\<close> returns that error, whatever
  \<open>post\<close> is; and \<open>Or(pre...)\<close> alone fails, with the cursor at \<open>c\<close>, with the error
  made from the list \<open>es\<close> of all the failures, which is not fatal. That \<open>g\<close> is called at
  \<open>c\<close> again after the failures of \<open>pre\<close> is the restore before the next alternative.
\<close>

theorem Or_alternatives_in_order:
  assumes "\<forall>a b. RestoreState sr (State sr a) b = a"
    and "list_all2 (fails_recoverably sr c) pre es"
  shows "(g sr c = (Return m None, c') \<longrightarrow> Or (pre @ g # post) sr c = (Return m None, c'))
       \<and> (g sr c = (Return m (Some e), c') \<and> isFE e \<longrightarrow>
            Or (pre @ g # post) sr c = (Return Nil (Some e), c'))
       \<and> Or pre sr c = (Return Nil (Some (Errorf ''Or error, expected: (%v)'' [AErrors es])), c)
       \<and> \<not> isFE (Errorf ''Or error, expected: (%v)'' [AErrors es])"
proof -
  have skip: "Or_loop sr (State sr c) (pre @ rest) [] c = Or_loop sr (State sr c) rest es c" for rest
    using Or_loop_skip [OF assms, of rest "[]"] by simp
  have "Or pre sr c = Or_loop sr (State sr c) (pre @ []) [] c"
    by (simp add: Or_def)
  also have "\<dots> = Or_loop sr (State sr c) [] es c"
    by (rule skip)
  finally have all: "Or pre sr c = (Return Nil (Some (Errorf ''Or error, expected: (%v)'' [AErrors es])), c)"
    by simp
  have step: "Or (pre @ g # post) sr c = Or_loop sr (State sr c) (g # post) es c"
    by (simp add: Or_def skip)
  from step all show ?thesis by simp
qed

theorem Or_alternatives_in_order_witness:
  "Or ([Lit ''a''] @ Lit ''b'' # [Lit ''c'']) (string_reader ''bd'') 0 = (Return (Scalar ''b'') None, 1)
   \<and> Or ([Lit ''a''] @ Require [Lit ''b'', Lit ''c''] # [Lit ''b'']) (string_reader ''bd'') 0
       = (Return Nil (Some (fatalError (Errorf ''Expected %q, got %q'' [ARune (CHR ''c''), ARune (CHR ''d'')]))), 0)
   \<and> Or [Lit ''a''] (string_reader ''bd'') 0
       = (Return Nil (Some (Errorf ''Or error, expected: (%v)''
            [AErrors [Errorf ''Expected %q, got %q'' [ARune (CHR ''a''), ARune (CHR ''b'')]]])), 0)"
proof -
  let ?sr = "string_reader ''bd''"
  let ?es = "[Errorf ''Expected %q, got %q'' [ARune (CHR ''a''), ARune (CHR ''b'')]]"
  have law: "\<forall>a b. RestoreState ?sr (State ?sr a) b = a"
    by (simp add: string_reader_def)
  have pre: "list_all2 (fails_recoverably ?sr 0) [Lit ''a''] ?es"
    by (simp add: fails_recoverably_def Lit_def string_reader_def)
  have ok: "Lit ''b'' ?sr 0 = (Return (Scalar ''b'') None, 1)"
    by (simp add: Lit_def string_reader_def)
  have fatal: "Require [Lit ''b'', Lit ''c''] ?sr 0
       = (Return Nil (Some (fatalError (Errorf ''Expected %q, got %q'' [ARune (CHR ''c''), ARune (CHR ''d'')]))), 0)"
    by (simp add: Require_def And_def Lit_def string_reader_def)
  from Or_alternatives_in_order [OF law pre, where g = "Lit ''b''" and post = "[Lit ''c'']"]
       Or_alternatives_in_order [OF law pre, where g = "Require [Lit ''b'', Lit ''c'']" and post = "[Lit ''b'']"]
       ok fatal
  show ?thesis by simp
qed

section \<open>\<open>Mult\<close> repeats\<close>

lemma Mult_loop_applications:
  "applications k g sr c = Some (xs, ck) \<Longrightarrow> i + int k \<le> m
   \<Longrightarrow> Mult_loop sr st n m g i ms c = Mult_loop sr st n m g (i + int k) (ms @ xs) ck"
proof (induction k arbitrary: i ms c xs)
  case 0
  then show ?case by simp
next
  case (Suc k)
  from Suc.prems(1) obtain x c1 xs' where run: "g sr c = (Return x None, c1)"
    and rest: "applications k g sr c1 = Some (xs', ck)" and xs: "xs = x # xs'"
    by (auto split: prod.splits outcome.splits option.splits)
  from Suc.prems(2) have lt: "i < m" and le: "(i + 1) + int k \<le> m"
    by simp_all
  have "Mult_loop sr st n m g i ms c = Mult_loop sr st n m g (i + 1) (ms @ [x]) c1"
    using run lt by (subst Mult_loop.simps) simp
  also have "\<dots> = Mult_loop sr st n m g ((i + 1) + int k) ((ms @ [x]) @ xs') ck"
    by (rule Suc.IH [OF rest le])
  finally show ?case by (simp add: xs add.commute add.left_commute)
qed

lemma applications_length:
  "applications k g sr c = Some (xs, ck) \<Longrightarrow> length xs = k"
  by (induction k arbitrary: c xs) (auto split: prod.splits outcome.splits option.splits)

lemma Mult_after_applications:
  assumes "applications k g sr c = Some (xs, ck)"
    and "int k \<le> (if m = 0 then MaxInt else m)"
  shows "Mult n m g sr c
         = Mult_loop sr (State sr c) n (if m = 0 then MaxInt else m) g (int k) xs ck"
  using Mult_loop_applications [OF assms(1), of 0 "if m = 0 then MaxInt else m" "State sr c" n "[]"] assms(2)
  by (simp add: Mult_def Let_def)

lemma Mult_stops_on_failure:
  assumes "applications k g sr c = Some (xs, ck)"
    and "int k < (if m = 0 then MaxInt else m)"
    and "g sr ck = (Return x (Some e), c')"
  shows "Mult n m g sr c =
    (if isFE e then (Return Nil (Some e), c')
     else if int k < n then (Return Nil (Some e), RestoreState sr (State sr c) c')
     else (Return (Sequence xs) None, c'))"
proof -
  from assms(2) have le: "int k \<le> (if m = 0 then MaxInt else m)" by simp
  show ?thesis
    unfolding Mult_after_applications [OF assms(1) le]
    using assms(2,3) by (subst Mult_loop.simps) simp
qed

lemma Mult_stops_at_max:
  assumes "applications k g sr c = Some (xs, ck)"
    and "int k = (if m = 0 then MaxInt else m)"
  shows "Mult n m g sr c = (Return (Sequence xs) None, ck)"
proof -
  from assms(2) have le: "int k \<le> (if m = 0 then MaxInt else m)" by simp
  show ?thesis
    unfolding Mult_after_applications [OF assms(1) le]
    using assms(2) by (subst Mult_loop.simps) simp
qed

section \<open>The cursor after a fatal failure\<close>

text \<open>
  C10. A child that fails with a fatal error: \<open>Or\<close> (after alternatives that failed
  recoverably) and \<open>Mult\<close> (after \<open>k\<close> successful applications) return the fatal error
  with the cursor in the state \<open>c'\<close> the child left, no restore applied; \<open>And\<close> returns
  it after restoring the checkpoint it took on entry.
\<close>

theorem fatal_failure_restore_differs:
  "((\<forall>a b. RestoreState sr (State sr a) b = a) \<and> list_all2 (fails_recoverably sr c) pre es
      \<and> g sr c = (Return x (Some e), c') \<and> isFE e
     \<longrightarrow> Or (pre @ g # post) sr c = (Return Nil (Some e), c'))
   \<and> (applications k g sr c = Some (ms, ck) \<and> int k < (if m = 0 then MaxInt else m)
      \<and> g sr ck = (Return x (Some e), c') \<and> isFE e
     \<longrightarrow> Mult n m g sr c = (Return Nil (Some e), c'))
   \<and> (And pre sr c = (Return (Sequence ms) None, cp) \<and> g sr cp = (Return x (Some e), cq) \<and> isFE e
     \<longrightarrow> And (pre @ g # post) sr c = (Return Nil (Some e), RestoreState sr (State sr c) cq))"
proof -
  have or_part: "Or (pre @ g # post) sr c = (Return Nil (Some e), c')"
    if "\<forall>a b. RestoreState sr (State sr a) b = a" "list_all2 (fails_recoverably sr c) pre es"
      "g sr c = (Return x (Some e), c')" "isFE e"
    using Or_loop_skip [OF that(1,2), of "g # post" "[]"] that(3,4) by (simp add: Or_def)
  have mult_part: "Mult n m g sr c = (Return Nil (Some e), c')"
    if "applications k g sr c = Some (ms, ck)" "int k < (if m = 0 then MaxInt else m)"
      "g sr ck = (Return x (Some e), c')" "isFE e"
    using Mult_stops_on_failure [OF that(1,2,3), of n] that(4) by simp
  have and_part: "And (pre @ g # post) sr c = (Return Nil (Some e), RestoreState sr (State sr c) cq)"
    if "And pre sr c = (Return (Sequence ms) None, cp)" "g sr cp = (Return x (Some e), cq)"
  proof -
    from that(1) have "And_loop sr (State sr c) pre [] c = (Return (Sequence ms) None, cp)"
      by (simp add: And_def)
    from And_loop_append [OF this, of "g # post"] that(2) show ?thesis
      by (simp add: And_def)
  qed
  from or_part mult_part and_part show ?thesis by blast
qed

theorem fatal_failure_restore_differs_witness:
  "Or ([Lit ''b''] @ Mult 0 0 (Require [Lit ''a'']) # [Lit ''a'']) (string_reader ''aab'') 0
     = (Return Nil (Some (fatalError (Errorf ''Expected %q, got %q'' [ARune (CHR ''a''), ARune (CHR ''b'')]))), 2)
   \<and> Mult 0 0 (Require [Lit ''a'']) (string_reader ''aab'') 0
     = (Return Nil (Some (fatalError (Errorf ''Expected %q, got %q'' [ARune (CHR ''a''), ARune (CHR ''b'')]))), 2)
   \<and> And ([Lit ''a''] @ Mult 0 0 (Require [Lit ''a'']) # [Lit ''b'']) (string_reader ''aab'') 0
     = (Return Nil (Some (fatalError (Errorf ''Expected %q, got %q'' [ARune (CHR ''a''), ARune (CHR ''b'')]))), 0)"
proof -
  let ?sr = "string_reader ''aab''"
  let ?e = "fatalError (Errorf ''Expected %q, got %q'' [ARune (CHR ''a''), ARune (CHR ''b'')])"
  let ?child = "Mult 0 0 (Require [Lit ''a'']) :: (nat, nat) Grammar"
  have law: "\<forall>a b. RestoreState ?sr (State ?sr a) b = a"
    by (simp add: string_reader_def)
  have pre: "list_all2 (fails_recoverably ?sr 0) [Lit ''b'']
               [Errorf ''Expected %q, got %q'' [ARune (CHR ''b''), ARune (CHR ''a'')]]"
    by (simp add: fails_recoverably_def Lit_def string_reader_def)
  have two: "applications 2 (Require [Lit ''a'']) ?sr 0 = Some ([Sequence [Scalar ''a''], Sequence [Scalar ''a'']], 2)"
    by (simp add: eval_nat_numeral Require_def And_def Lit_def string_reader_def)
  have third: "Require [Lit ''a''] ?sr 2 = (Return Nil (Some ?e), 2)"
    by (simp add: Require_def And_def Lit_def string_reader_def)
  have unbounded: "int 2 < (if (0::int) = 0 then MaxInt else 0)"
    by (simp add: MaxInt_def)
  have fe: "isFE ?e" by simp
  from fatal_failure_restore_differs [where g = "Require [Lit ''a'']" and sr = ?sr and c = 0
         and k = 2 and ms = "[Sequence [Scalar ''a''], Sequence [Scalar ''a'']]" and ck = 2
         and c' = 2 and x = Nil and e = ?e and n = 0 and m = 0]
       two third unbounded fe
  have child0: "?child ?sr 0 = (Return Nil (Some ?e), 2)"
    by simp
  have child1: "?child ?sr 1 = (Return Nil (Some ?e), 2)"
    by (simp add: Mult_def Mult_loop.simps MaxInt_def Require_def And_def Lit_def string_reader_def)
  have first: "And [Lit ''a''] ?sr 0 = (Return (Sequence [Scalar ''a'']) None, 1)"
    by (simp add: And_def Lit_def string_reader_def)
  from fatal_failure_restore_differs [where g = ?child and sr = ?sr and c = 0 and c' = 2
         and pre = "[Lit ''b'']" and post = "[Lit ''a'']" and x = Nil and e = ?e
         and es = "[Errorf ''Expected %q, got %q'' [ARune (CHR ''b''), ARune (CHR ''a'')]]"]
       law pre child0 fe
  have r1: "Or ([Lit ''b''] @ ?child # [Lit ''a'']) ?sr 0 = (Return Nil (Some ?e), 2)"
    by simp
  from fatal_failure_restore_differs [where g = ?child and sr = ?sr and c = 0 and cp = 1 and cq = 2
         and pre = "[Lit ''a'']" and post = "[Lit ''b'']" and x = Nil and e = ?e
         and ms = "[Scalar ''a'']"]
       first child1 fe
  have r3: "And ([Lit ''a''] @ ?child # [Lit ''b'']) ?sr 0 = (Return Nil (Some ?e), 0)"
    by (simp add: string_reader_def)
  from r1 child0 r3 show ?thesis by simp
qed

section \<open>\<open>Lit\<close> matches its text\<close>

lemma Lit_loop_matched:
  "read_runes sr (length pre) c = Some (pre, cm)
   \<Longrightarrow> Lit_loop sr st text (pre @ rest) c = Lit_loop sr st text rest cm"
proof (induction pre arbitrary: c)
  case Nil
  then show ?case by simp
next
  case (Cons r pre)
  then show ?case
    by (auto split: prod.splits sum.splits option.splits)
qed

lemma Lit_loop_success:
  "Lit_loop sr st text rs c = (Return m None, c')
   \<Longrightarrow> m = Scalar text \<and> read_runes sr (length rs) c = Some (rs, c')"
proof (induction rs arbitrary: c)
  case Nil
  then show ?case by simp
next
  case (Cons r rs)
  then show ?case
    by (auto split: prod.splits sum.splits option.splits if_splits)
qed

text \<open>
  C8 as it is written has \<open>Lit\<close> fail, on a mismatch and on a read failure alike, with a
  message naming the expected and the actual character. On a read failure there is no
  actual character, and \<open>Lit\<close> returns the reader's own error: \<open>Lit("a")\<close> at the end of
  the input fails with \<open>io.EOF\<close>.
\<close>

theorem Lit_counterexample_read_failure:
  "Lit ''a'' (string_reader '''') 0 = (Return Nil (Some (External ''EOF'')), 0)"
  by (simp add: Lit_def string_reader_def)

text \<open>
  C8, amended. \<open>Lit(t)\<close> reads one rune per rune of \<open>t\<close>. It succeeds exactly when
  \<open>length t\<close> reads in a row return the runes of \<open>t\<close>; it then returns the scalar \<open>t\<close>
  and leaves the cursor in the state after these reads. When the runes of \<open>pre\<close> have been
  read and matched and the next read returns a rune \<open>rr\<close> other than the expected \<open>r\<close>,
  it restores the checkpoint taken on entry and fails with the error made from the
  expected and the actual rune; when the next read fails, it restores that checkpoint and
  fails with the reader's error. Neither error is fatal.
\<close>

theorem Lit_exact:
  "(read_runes sr (length t) c = Some (t, c')
     \<longrightarrow> Lit t sr c = (Return (Scalar t) None, c'))
   \<and> (Lit t sr c = (Return m None, c')
     \<longrightarrow> m = Scalar t \<and> read_runes sr (length t) c = Some (t, c'))
   \<and> (read_runes sr (length pre) c = Some (pre, cm) \<and> ReadRune sr cm = (Inr rr, cf) \<and> rr \<noteq> r
     \<longrightarrow> Lit (pre @ r # post) sr c
           = (Return Nil (Some (Errorf ''Expected %q, got %q'' [ARune r, ARune rr])),
              RestoreState sr (State sr c) cf)
         \<and> \<not> isFE (Errorf ''Expected %q, got %q'' [ARune r, ARune rr]))
   \<and> (read_runes sr (length pre) c = Some (pre, cm) \<and> ReadRune sr cm = (Inl err, cf)
     \<longrightarrow> Lit (pre @ r # post) sr c
           = (Return Nil (Some (External err)), RestoreState sr (State sr c) cf)
         \<and> \<not> isFE (External err))"
proof -
  have ok: "Lit t sr c = (Return (Scalar t) None, c')"
    if "read_runes sr (length t) c = Some (t, c')"
    using Lit_loop_matched [OF that, of "State sr c" t "[]"] by (simp add: Lit_def)
  have conv: "m = Scalar t \<and> read_runes sr (length t) c = Some (t, c')"
    if "Lit t sr c = (Return m None, c')"
    using that by (intro Lit_loop_success [of sr "State sr c"]) (simp add: Lit_def)
  have mismatch: "Lit (pre @ r # post) sr c
           = (Return Nil (Some (Errorf ''Expected %q, got %q'' [ARune r, ARune rr])),
              RestoreState sr (State sr c) cf)"
    if "read_runes sr (length pre) c = Some (pre, cm)" "ReadRune sr cm = (Inr rr, cf)" "rr \<noteq> r"
    using Lit_loop_matched [OF that(1), of "State sr c" "pre @ r # post" "r # post"] that(2,3)
    by (simp add: Lit_def)
  have readfail: "Lit (pre @ r # post) sr c
           = (Return Nil (Some (External err)), RestoreState sr (State sr c) cf)"
    if "read_runes sr (length pre) c = Some (pre, cm)" "ReadRune sr cm = (Inl err, cf)"
    using Lit_loop_matched [OF that(1), of "State sr c" "pre @ r # post" "r # post"] that(2)
    by (simp add: Lit_def)
  from ok conv mismatch readfail show ?thesis by simp
qed

theorem Lit_exact_witness:
  "Lit ''foo'' (string_reader ''foobar'') 0 = (Return (Scalar ''foo'') None, 3)
   \<and> read_runes (string_reader ''foobar'') (length ''foo'') 0 = Some (''foo'', 3)
   \<and> Lit (''fo'' @ CHR ''x'' # ''y'') (string_reader ''foobar'') 0
       = (Return Nil (Some (Errorf ''Expected %q, got %q'' [ARune (CHR ''x''), ARune (CHR ''o'')])), 0)
   \<and> Lit (''fo'' @ CHR ''o'' # ''bar'') (string_reader ''fo'') 0
       = (Return Nil (Some (External ''EOF'')), 0)"
proof -
  have whole: "read_runes (string_reader ''foobar'') (length ''foo'') 0 = Some (''foo'', 3)"
    by (simp add: string_reader_def)
  have two: "read_runes (string_reader ''foobar'') (length ''fo'') 0 = Some (''fo'', 2)"
    by (simp add: string_reader_def)
  have third: "ReadRune (string_reader ''foobar'') 2 = (Inr (CHR ''o''), 3)"
    by (simp add: string_reader_def)
  have two': "read_runes (string_reader ''fo'') (length ''fo'') 0 = Some (''fo'', 2)"
    by (simp add: string_reader_def)
  have eof: "ReadRune (string_reader ''fo'') 2 = (Inl ''EOF'', 2)"
    by (simp add: string_reader_def)
  from Lit_exact [where sr = "string_reader ''foobar''" and c = 0 and t = "''foo''" and c' = 3
         and m = "Scalar ''foo''" and pre = "''fo''" and cm = 2 and rr = "CHR ''o''" and cf = 3
         and r = "CHR ''x''" and post = "''y''"]
       whole two third
  have r1: "Lit ''foo'' (string_reader ''foobar'') 0 = (Return (Scalar ''foo'') None, 3)"
    and r2: "Lit (''fo'' @ CHR ''x'' # ''y'') (string_reader ''foobar'') 0
       = (Return Nil (Some (Errorf ''Expected %q, got %q'' [ARune (CHR ''x''), ARune (CHR ''o'')])), 0)"
    by (simp_all add: string_reader_def)
  from Lit_exact [where sr = "string_reader ''fo''" and c = 0
         and pre = "''fo''" and cm = 2 and cf = 2 and err = "''EOF''"
         and r = "CHR ''o''" and post = "''bar''"]
       two' eof
  have r3: "Lit (''fo'' @ CHR ''o'' # ''bar'') (string_reader ''fo'') 0
       = (Return Nil (Some (External ''EOF'')), 0)"
    by (simp add: string_reader_def)
  from r1 whole r2 r3 show ?thesis by simp
qed

section \<open>\<open>GetTag\<close>\<close>

lemma first_non_nil_append:
  "first_non_nil (xs @ ys) = (if first_non_nil xs \<noteq> Nil then first_non_nil xs else first_non_nil ys)"
  by (induction xs) (auto simp: first_non_nil_def)

lemma first_non_nil_single:
  "first_non_nil [x] = x"
  by (simp add: first_non_nil_def)

lemma GetTag_first_non_nil:
  "GetTag m tag = first_non_nil (tagged_children m tag)"
  "GetTag_loop ms tag = first_non_nil (concat (map (\<lambda>mi. tagged_children mi tag) ms))"
proof (induction m tag and ms tag rule: GetTag_GetTag_loop.induct)
  case (7 mi ms tag)
  then show ?case by (simp add: first_non_nil_append Let_def)
qed (simp_all add: first_non_nil_single, simp_all add: first_non_nil_def)

text \<open>
  C9 as it is written has \<open>GetTag\<close> return the child of the first tagged sub-match with
  the label. \<open>GetTag\<close> takes \<open>nil\<close> for "not found": in a sequence, it passes over a
  tagged match with the label whose child is \<open>nil\<close> and returns the child of a later one.
  The sequence below is the match of
  \<open>And(Tag("x", Ignore(Lit("a"))), Tag("x", Lit("b")))\<close> over the text \<open>ab\<close>.
\<close>

theorem GetTag_counterexample_nil_child:
  "And [Tag ''x'' (Ignore (Lit ''a'')), Tag ''x'' (Lit ''b'')] (string_reader ''ab'') 0
     = (Return (Sequence [TaggedMatch Nil ''x'', TaggedMatch (Scalar ''b'') ''x'']) None, 2)
   \<and> GetTag (Sequence [TaggedMatch Nil ''x'', TaggedMatch (Scalar ''b'') ''x'']) ''x'' = Scalar ''b''
   \<and> GetTag_spec (Sequence [TaggedMatch Nil ''x'', TaggedMatch (Scalar ''b'') ''x'']) ''x'' = Nil"
  by (simp add: And_def Tag_def Ignore_def Lit_def string_reader_def GetTag_spec_def)

text \<open>
  C9, amended. \<open>GetTag(m, label)\<close> returns the first child that is not \<open>nil\<close> among the
  children of the tagged sub-matches of \<open>m\<close> with the label, taken in depth-first order
  (going into tagged matches with other labels), or \<open>nil\<close> when there is none. When no
  tagged sub-match with the label has a \<open>nil\<close> child, that is the child of the first
  such sub-match, as the specification has it. On the match that \<open>Tag("x", Lit("a"))\<close>
  returns over the text \<open>a\<close>, \<open>GetTag\<close> with the label \<open>x\<close> returns the scalar \<open>a\<close>.
\<close>

theorem GetTag_first_non_nil_child:
  "GetTag m tag = first_non_nil (tagged_children m tag)
   \<and> (list_all (\<lambda>x. x \<noteq> Nil) (tagged_children m tag) \<longrightarrow> GetTag m tag = GetTag_spec m tag)
   \<and> fst (Tag ''x'' (Lit ''a'') (string_reader ''a'') 0) = Return (TaggedMatch (Scalar ''a'') ''x'') None
   \<and> GetTag (TaggedMatch (Scalar ''a'') ''x'') ''x'' = Scalar ''a''"
proof -
  have exact: "GetTag m tag = first_non_nil (tagged_children m tag)"
    by (rule GetTag_first_non_nil)
  have "first_non_nil xs = (case xs of [] \<Rightarrow> Nil | x # ys \<Rightarrow> x)" if "list_all (\<lambda>x. x \<noteq> Nil) xs" for xs
    using that by (cases xs) (simp_all add: first_non_nil_def)
  then have spec: "list_all (\<lambda>x. x \<noteq> Nil) (tagged_children m tag) \<longrightarrow> GetTag m tag = GetTag_spec m tag"
    by (simp add: exact GetTag_spec_def)
  have run: "fst (Tag ''x'' (Lit ''a'') (string_reader ''a'') 0) = Return (TaggedMatch (Scalar ''a'') ''x'') None"
    by (simp add: Tag_def Lit_def string_reader_def)
  from exact spec run show ?thesis by simp
qed

theorem GetTag_first_non_nil_child_witness:
  "list_all (\<lambda>x. x \<noteq> Nil) (tagged_children (Sequence [Scalar ''a'', TaggedMatch (TaggedMatch (Scalar ''b'') ''x'') ''y'', TaggedMatch (Scalar ''c'') ''x'']) ''x'')
   \<and> GetTag (Sequence [Scalar ''a'', TaggedMatch (TaggedMatch (Scalar ''b'') ''x'') ''y'', TaggedMatch (Scalar ''c'') ''x'']) ''x'' = Scalar ''b''
   \<and> GetTag_spec (Sequence [Scalar ''a'', TaggedMatch (TaggedMatch (Scalar ''b'') ''x'') ''y'', TaggedMatch (Scalar ''c'') ''x'']) ''x'' = Scalar ''b''"
  using GetTag_first_non_nil_child [of "Sequence [Scalar ''a'', TaggedMatch (TaggedMatch (Scalar ''b'') ''x'') ''y'', TaggedMatch (Scalar ''c'') ''x'']" "''x''"]
  by (simp add: GetTag_spec_def)

section \<open>Checkpoint symmetry of the other combinators\<close>

lemma Lit_loop_failure:
  "Lit_loop sr st text rs c = (Return m (Some e), c') \<Longrightarrow> \<exists>cf. c' = RestoreState sr st cf"
proof (induction rs arbitrary: c)
  case Nil
  then show ?case by simp
next
  case (Cons r rs)
  then show ?case
    by (fastforce split: prod.splits sum.splits if_splits)
qed

lemma Set_failure:
  "Set rx s sr c = (Return m (Some e), c') \<Longrightarrow> \<exists>cf. c' = RestoreState sr (State sr c) cf"
  by (fastforce simp: Set_def Let_def split: prod.splits sum.splits option.splits if_splits)

lemma Or_loop_failure:
  "Or_loop sr st gs errs c = (Return m (Some e), c') \<Longrightarrow> \<not> isFE e
   \<Longrightarrow> c' = c \<or> (\<exists>cf. c' = RestoreState sr st cf)"
proof (induction gs arbitrary: errs c)
  case Nil
  then show ?case by simp
next
  case (Cons g gs)
  show ?case
  proof (cases "g sr c")
    case (Pair out cg)
    show ?thesis
    proof (cases out)
      case Panic
      with Pair Cons.prems show ?thesis by simp
    next
      case (Return x err)
      show ?thesis
      proof (cases err)
        case None
        with Pair Return Cons.prems show ?thesis by simp
      next
        case (Some e')
        show ?thesis
        proof (cases "isFE e'")
          case True
          with Pair Return Some Cons.prems show ?thesis by auto
        next
          case False
          with Pair Return Some Cons.prems
          have "Or_loop sr st gs (errs @ [e']) (RestoreState sr st cg) = (Return m (Some e), c')"
            by simp
          from Cons.IH [OF this Cons.prems(2)] show ?thesis by auto
        qed
      qed
    qed
  qed
qed

lemma Mult_loop_failure:
  "Mult_loop sr st n m g i ms c = (Return x (Some e), c') \<Longrightarrow> \<not> isFE e
   \<Longrightarrow> \<exists>cf. c' = RestoreState sr st cf"
proof (induction sr st n m g i ms c rule: Mult_loop.induct)
  case (1 sr st n m g i ms c)
  from "1.prems"(1) have lt: "i < m"
    by (subst (asm) Mult_loop.simps) (simp split: if_splits)
  show ?case
  proof (cases "g sr c")
    case (Pair out cg)
    show ?thesis
    proof (cases out)
      case Panic
      with Pair lt "1.prems" show ?thesis
        by (subst (asm) Mult_loop.simps) simp
    next
      case (Return y err)
      show ?thesis
      proof (cases err)
        case None
        with Pair Return lt "1.prems"(1)
        have "Mult_loop sr st n m g (i + 1) (ms @ [y]) cg = (Return x (Some e), c')"
          by (subst (asm) Mult_loop.simps) simp
        from "1.IH" [OF lt Pair [symmetric] Return None this "1.prems"(2)] show ?thesis .
      next
        case (Some e')
        with Pair Return lt "1.prems" show ?thesis
          by (subst (asm) Mult_loop.simps) (auto split: if_splits)
      qed
    qed
  qed
qed

lemma built_failure_restores:
  assumes law: "\<forall>a b. RestoreState sr (State sr a) b = a"
    and "built rx g"
    and "g sr c = (Return m (Some e), c')"
    and "\<not> isFE e"
  shows "c' = c"
  using assms(2-4)
proof (induction arbitrary: c m e c' rule: built.induct)
  case (built_Lit t)
  from built_Lit(1) have "Lit_loop sr (State sr c) t t c = (Return m (Some e), c')"
    by (simp add: Lit_def)
  from Lit_loop_failure [OF this] law show ?case by auto
next
  case (built_Set s)
  from Set_failure [OF built_Set(1)] law show ?case by auto
next
  case (built_And gs)
  from built_And(3) have "And_loop sr (State sr c) gs [] c = (Return m (Some e), c')"
    by (simp add: And_def)
  from And_loop_failure [OF this] law show ?case by auto
next
  case (built_Or gs)
  from built_Or(3) have "Or_loop sr (State sr c) gs [] c = (Return m (Some e), c')"
    by (simp add: Or_def)
  from Or_loop_failure [OF this built_Or(4)] law show ?case by auto
next
  case (built_Mult g n m0)
  from built_Mult(3)
  have "Mult_loop sr (State sr c) n (if m0 = 0 then MaxInt else m0) g 0 [] c = (Return m (Some e), c')"
    by (simp add: Mult_def Let_def)
  from Mult_loop_failure [OF this built_Mult(4)] law show ?case by auto
next
  case (built_Optional g)
  from built_Optional(3)
  have "Mult_loop sr (State sr c) 0 1 g 0 [] c = (Return m (Some e), c')"
    by (simp add: Optional_def Mult_def Let_def)
  from Mult_loop_failure [OF this built_Optional(4)] law show ?case by auto
next
  case (built_Ignore g)
  from built_Ignore(3) obtain x where "g sr c = (Return x (Some e), c')"
    by (auto simp: Ignore_def split: prod.splits outcome.splits option.splits)
  from built_Ignore(2) [OF this built_Ignore(4)] show ?case .
next
  case (built_Require gs)
  from built_Require(3) have "isFE e"
    by (auto simp: Require_def Let_def split: prod.splits outcome.splits option.splits)
  with built_Require(4) show ?case by simp
next
  case (built_Tag g tag)
  from built_Tag(3) obtain x where "g sr c = (Return x (Some e), c')"
    by (auto simp: Tag_def Let_def split: prod.splits outcome.splits option.splits)
  from built_Tag(2) [OF this built_Tag(4)] show ?case .
next
  case (built_Resolve g)
  from built_Resolve(3) have "g sr c = (Return m (Some e), c')"
    by (simp add: Resolve_def)
  from built_Resolve(2) [OF this built_Resolve(4)] show ?case .
next
  case (built_Node g node)
  show ?case
  proof (cases "g sr c")
    case (Pair out cg)
    show ?thesis
    proof (cases out)
      case Panic
      with Pair built_Node.prems(1) show ?thesis by (simp add: Node_def)
    next
      case (Return x err)
      show ?thesis
      proof (cases err)
        case None
        with Pair Return built_Node.prems(1) have "node x = (m, Some e)"
          by (auto simp: Node_def split: prod.splits)
        from built_Node.hyps(2) [OF this] built_Node.prems(2) show ?thesis by simp
      next
        case (Some e')
        with Pair Return built_Node.prems(1) have "g sr c = (Return x (Some e), c')"
          by (simp add: Node_def)
        from built_Node.IH [OF this built_Node.prems(2)] show ?thesis .
      qed
    qed
  qed
qed

text \<open>
  Checkpoint symmetry, for the grammars built from the combinators in which every
  transform of a \<open>Node\<close> fails only fatally: on a cursor whose restore gives back the
  state that was captured, a failure that is not fatal leaves the cursor in the state it
  had before the call.
\<close>

theorem recoverable_failure_restores:
  assumes "\<forall>a b. RestoreState sr (State sr a) b = a"
    and "built rx g"
    and "g sr c = (Return m (Some e), c')"
    and "\<not> isFE e"
  shows "c' = c"
  using assms by (rule built_failure_restores)

theorem recoverable_failure_restores_witness:
  "built plain_class_regexp
     (And [Lit ''a'', Or [Lit ''b'', Set plain_class_regexp ''cd''], Mult 1 0 (Tag ''x'' (Lit ''e''))]
        :: (nat, nat) Grammar)
   \<and> And [Lit ''a'', Or [Lit ''b'', Set plain_class_regexp ''cd''], Mult 1 0 (Tag ''x'' (Lit ''e''))]
         (string_reader ''ade'') 0
       = (Return (Sequence [Scalar ''a'', Scalar ''d'', Sequence [TaggedMatch (Scalar ''e'') ''x'']]) None, 3)
   \<and> And [Lit ''a'', Or [Lit ''b'', Set plain_class_regexp ''cd''], Mult 1 0 (Tag ''x'' (Lit ''e''))]
         (string_reader ''adf'') 0
       = (Return Nil (Some (Errorf ''Expected %q, got %q'' [ARune (CHR ''e''), ARune (CHR ''f'')])), 0)"
proof -
  let ?g = "And [Lit ''a'', Or [Lit ''b'', Set plain_class_regexp ''cd''], Mult 1 0 (Tag ''x'' (Lit ''e''))]
              :: (nat, nat) Grammar"
  let ?e = "Errorf ''Expected %q, got %q'' [ARune (CHR ''e''), ARune (CHR ''f'')]"
  have b: "built plain_class_regexp ?g"
    by (auto intro!: built.intros)
  have law: "\<forall>a b. RestoreState (string_reader ''adf'') (State (string_reader ''adf'') a) b = a"
    by (simp add: string_reader_def)
  have ok: "?g (string_reader ''ade'') 0
       = (Return (Sequence [Scalar ''a'', Scalar ''d'', Sequence [TaggedMatch (Scalar ''e'') ''x'']]) None, 3)"
    by (simp add: And_def Or_def Mult_def Mult_loop.simps MaxInt_def Tag_def Lit_def Set_def
        plain_class_regexp_def plain_def string_reader_def Let_def)
  have run: "?g (string_reader ''adf'') 0 = (Return Nil (Some ?e), snd (?g (string_reader ''adf'') 0))"
    by (simp add: And_def Or_def Mult_def Mult_loop.simps MaxInt_def Tag_def Lit_def Set_def
        plain_class_regexp_def plain_def string_reader_def Let_def)
  have nf: "\<not> isFE ?e" by simp
  from recoverable_failure_restores [OF law b run nf] run
  have "?g (string_reader ''adf'') 0 = (Return Nil (Some ?e), 0)"
    by simp
  with b ok show ?thesis by simp
qed

section \<open>\<open>And\<close> leaves out the children without a value\<close>

lemma And_loop_no_nil:
  "And_loop sr st gs acc c = (Return m None, c') \<Longrightarrow> Nil \<notin> set acc
   \<Longrightarrow> \<exists>ms. m = Sequence ms \<and> Nil \<notin> set ms"
proof (induction gs arbitrary: acc c)
  case Nil
  then show ?case by auto
next
  case (Cons g gs)
  from Cons.prems(1) obtain x cg where run: "g sr c = (Return x None, cg)"
    and rest: "And_loop sr st gs (if x \<noteq> Nil then acc @ [x] else acc) cg = (Return m None, c')"
    by (auto split: prod.splits outcome.splits option.splits)
  from Cons.prems(2) have "Nil \<notin> set (if x \<noteq> Nil then acc @ [x] else acc)"
    by simp
  from Cons.IH [OF rest this] show ?case .
qed

text \<open>
  The sequence that \<open>And\<close> returns holds no \<open>nil\<close>: a child that returns \<open>nil\<close>, as
  \<open>Ignore\<close> does, is left out.
\<close>

theorem And_sequence_has_no_nil:
  assumes "And gs sr c = (Return m None, c')"
  shows "\<exists>ms. m = Sequence ms \<and> Nil \<notin> set ms"
  using assms And_loop_no_nil [of sr "State sr c" gs "[]" c m c'] by (simp add: And_def)

theorem And_sequence_has_no_nil_witness:
  "And [Lit ''a'', Ignore (Lit ''b''), Lit ''c''] (string_reader ''abc'') 0
     = (Return (Sequence [Scalar ''a'', Scalar ''c'']) None, 3)
   \<and> (\<exists>ms. Sequence [Scalar ''a'', Scalar ''c''] = Sequence ms \<and> Nil \<notin> set ms)"
proof -
  have run: "And [Lit ''a'', Ignore (Lit ''b''), Lit ''c''] (string_reader ''abc'') 0
     = (Return (Sequence [Scalar ''a'', Scalar ''c'']) None, 3)"
    by (simp add: And_def Ignore_def Lit_def string_reader_def)
  from And_sequence_has_no_nil [OF run] run show ?thesis by simp
qed

section \<open>\<open>String\<close> gives back the text consumed\<close>

lemma textual_built: "textual rx g \<Longrightarrow> built rx g"
  by (induction rule: textual.induct) (auto intro: built.intros)

lemma string_reader_law:
  "\<forall>a b. RestoreState (string_reader input) (State (string_reader input) a) b = a"
  by (simp add: string_reader_def)

lemma read_runes_string_reader:
  "read_runes (string_reader input) k c = Some (rs, c')
   \<Longrightarrow> c' = c + k \<and> rs = take k (drop c input)"
proof (induction k arbitrary: c rs)
  case 0
  then show ?case by simp
next
  case (Suc k)
  from Suc.prems have lt: "c < length input"
    by (auto simp: string_reader_def split: if_splits)
  with Suc.prems obtain rs' where rest: "read_runes (string_reader input) k (Suc c) = Some (rs', c')"
    and rs: "rs = input ! c # rs'"
    by (auto simp: string_reader_def split: option.splits)
  from Suc.IH [OF rest] have "c' = Suc c + k" and "rs' = take k (drop (Suc c) input)"
    by simp_all
  with rs lt show ?case
    by (simp add: Cons_nth_drop_Suc [symmetric])
qed

lemma Lit_text:
  assumes "Lit t (string_reader input) c = (Return m None, c')"
  shows "c \<le> c' \<and> String m = take (c' - c) (drop c input)"
proof -
  from assms have "Lit_loop (string_reader input) (State (string_reader input) c) t t c = (Return m None, c')"
    by (simp add: Lit_def)
  from Lit_loop_success [OF this]
  have m: "m = Scalar t" and rd: "read_runes (string_reader input) (length t) c = Some (t, c')"
    by simp_all
  from read_runes_string_reader [OF rd] m show ?thesis by simp
qed

lemma Set_text:
  assumes "Set rx s (string_reader input) c = (Return m None, c')"
  shows "c \<le> c' \<and> String m = take (c' - c) (drop c input)"
proof -
  from assms have lt: "c < length input"
    by (auto simp: Set_def Let_def string_reader_def split: if_splits option.splits)
  with assms have "m = Scalar [input ! c]" and "c' = Suc c"
    by (auto simp: Set_def Let_def string_reader_def split: if_splits option.splits)
  with lt show ?thesis
    by (simp add: Cons_nth_drop_Suc [symmetric])
qed

lemma take_consumed:
  assumes "c \<le> cg" and "cg \<le> c'"
  shows "take (cg - c) (drop c input) @ take (c' - cg) (drop cg input) = take (c' - c) (drop c input)"
proof -
  from assms have "c' - c = (cg - c) + (c' - cg)" by simp
  moreover from assms have "drop (cg - c) (drop c input) = drop cg input" by simp
  ultimately show ?thesis by (simp only: take_add)
qed

lemma And_loop_text:
  assumes P: "\<And>g c m c'. g \<in> set gs \<Longrightarrow> g (string_reader input) c = (Return m None, c')
                \<Longrightarrow> c \<le> c' \<and> String m = take (c' - c) (drop c input)"
  shows "And_loop (string_reader input) st gs acc c = (Return m None, c')
   \<Longrightarrow> c \<le> c' \<and> String m = concat (map String acc) @ take (c' - c) (drop c input)"
  using P
proof (induction gs arbitrary: acc c)
  case Nil
  then show ?case by auto
next
  case (Cons g gs)
  from Cons.prems(1) obtain x cg where run: "g (string_reader input) c = (Return x None, cg)"
    and rest: "And_loop (string_reader input) st gs (if x \<noteq> Nil then acc @ [x] else acc) cg = (Return m None, c')"
    by (auto split: prod.splits outcome.splits option.splits)
  from Cons.prems(2) [of g c x cg] run have le1: "c \<le> cg" and x: "String x = take (cg - c) (drop c input)"
    by simp_all
  have Pgs: "cb \<le> cf \<and> String y = take (cf - cb) (drop cb input)"
    if "h \<in> set gs" "h (string_reader input) cb = (Return y None, cf)" for h cb y cf
    using Cons.prems(2) [of h cb y cf] that by simp
  from Cons.IH [OF rest Pgs]
  have le2: "cg \<le> c'"
    and m: "String m = concat (map String (if x \<noteq> Nil then acc @ [x] else acc)) @ take (c' - cg) (drop cg input)"
    by simp_all
  have "concat (map String (if x \<noteq> Nil then acc @ [x] else acc)) = concat (map String acc) @ String x"
    by (cases "x = Nil") simp_all
  with m x have "String m = concat (map String acc)
       @ (take (cg - c) (drop c input) @ take (c' - cg) (drop cg input))"
    by simp
  with le1 le2 show ?case
    by (simp only: take_consumed) simp
qed

lemma Or_loop_text:
  assumes P: "\<And>g c m c'. g \<in> set gs \<Longrightarrow> g (string_reader input) c = (Return m None, c')
                \<Longrightarrow> c \<le> c' \<and> String m = take (c' - c) (drop c input)"
  shows "Or_loop (string_reader input) c gs errs c = (Return m None, c')
   \<Longrightarrow> c \<le> c' \<and> String m = take (c' - c) (drop c input)"
  using P
proof (induction gs arbitrary: errs)
  case Nil
  then show ?case by simp
next
  case (Cons g gs)
  show ?case
  proof (cases "g (string_reader input) c")
    case (Pair out cg)
    show ?thesis
    proof (cases out)
      case Panic
      with Pair Cons.prems(1) show ?thesis by simp
    next
      case (Return x err)
      show ?thesis
      proof (cases err)
        case None
        with Pair Return Cons.prems(1) have "g (string_reader input) c = (Return m None, c')"
          by simp
        from Cons.prems(2) [of g c m c'] this show ?thesis by simp
      next
        case (Some e)
        with Pair Return Cons.prems(1) have nf: "\<not> isFE e"
          by (auto split: if_splits)
        have "RestoreState (string_reader input) c cg = c"
          by (simp add: string_reader_def)
        with Pair Return Some nf Cons.prems(1)
        have "Or_loop (string_reader input) c gs (errs @ [e]) c = (Return m None, c')"
          by simp
        moreover have "cb \<le> cf \<and> String y = take (cf - cb) (drop cb input)"
          if "h \<in> set gs" "h (string_reader input) cb = (Return y None, cf)" for h cb y cf
          using Cons.prems(2) [of h cb y cf] that by simp
        ultimately show ?thesis by (rule Cons.IH)
      qed
    qed
  qed
qed

lemma Mult_loop_text:
  assumes P: "\<And>c m c'. g (string_reader input) c = (Return m None, c')
                \<Longrightarrow> c \<le> c' \<and> String m = take (c' - c) (drop c input)"
    and S: "\<And>c m e c'. g (string_reader input) c = (Return m (Some e), c') \<Longrightarrow> \<not> isFE e \<Longrightarrow> c' = c"
  shows "Mult_loop (string_reader input) st n m g i ms c = (Return x None, c')
   \<Longrightarrow> c \<le> c' \<and> String x = concat (map String ms) @ take (c' - c) (drop c input)"
  using P S
proof (induction "string_reader input" st n m g i ms c rule: Mult_loop.induct)
  case (1 st n m g i ms c)
  show ?case
  proof (cases "i < m")
    case False
    with "1.prems"(1) show ?thesis
      by (subst (asm) Mult_loop.simps) auto
  next
    case lt: True
    show ?thesis
    proof (cases "g (string_reader input) c")
      case (Pair out cg)
      show ?thesis
      proof (cases out)
        case Panic
        with Pair lt "1.prems"(1) show ?thesis
          by (subst (asm) Mult_loop.simps) simp
      next
        case (Return y err)
        show ?thesis
        proof (cases err)
          case None
          with Pair Return lt "1.prems"(1)
          have rest: "Mult_loop (string_reader input) st n m g (i + 1) (ms @ [y]) cg = (Return x None, c')"
            by (subst (asm) Mult_loop.simps) simp
          from Pair Return None have run: "g (string_reader input) c = (Return y None, cg)"
            by simp
          from "1.prems"(2) [OF run] have le1: "c \<le> cg" and y: "String y = take (cg - c) (drop c input)"
            by simp_all
          from "1.hyps" [OF lt Pair [symmetric] Return None rest "1.prems"(2,3)]
          have le2: "cg \<le> c'"
            and m: "String x = concat (map String (ms @ [y])) @ take (c' - cg) (drop cg input)"
            by simp_all
          from m y have "String x = concat (map String ms)
               @ (take (cg - c) (drop c input) @ take (c' - cg) (drop cg input))"
            by simp
          with le1 le2 show ?thesis
            by (simp only: take_consumed) simp
        next
          case (Some e)
          from Pair Return Some have run: "g (string_reader input) c = (Return y (Some e), cg)"
            by simp
          from run lt "1.prems"(1) have nf: "\<not> isFE e" and res: "x = Sequence ms" "c' = cg"
            by (subst (asm) Mult_loop.simps, auto split: if_splits)+
          from "1.prems"(3) [OF run nf] res show ?thesis by simp
        qed
      qed
    qed
  qed
qed

text \<open>
  For a grammar built from \<open>Lit\<close>, \<open>Set\<close>, \<open>And\<close>, \<open>Or\<close>, \<open>Mult\<close>, \<open>Optional\<close>,
  \<open>Require\<close> and \<open>Resolve\<close>, on the cursor over a text: when it succeeds from the index
  \<open>c\<close> and leaves the cursor at \<open>c'\<close>, \<open>String\<close> of its match is the text between
  \<open>c\<close> and \<open>c'\<close>.
\<close>

theorem String_of_textual_match:
  assumes "textual rx g"
    and "g (string_reader input) c = (Return m None, c')"
  shows "c \<le> c' \<and> String m = take (c' - c) (drop c input)"
  using assms
proof (induction arbitrary: c m c' rule: textual.induct)
  case (textual_Lit t)
  then show ?case by (rule Lit_text)
next
  case (textual_Set s)
  then show ?case by (rule Set_text)
next
  case (textual_And gs)
  from textual_And.prems
  have "And_loop (string_reader input) (State (string_reader input) c) gs [] c = (Return m None, c')"
    by (simp add: And_def)
  from And_loop_text [OF _ this] textual_And.IH show ?case by simp
next
  case (textual_Or gs)
  from textual_Or.prems
  have "Or_loop (string_reader input) c gs [] c = (Return m None, c')"
    by (simp add: Or_def string_reader_def)
  from Or_loop_text [OF _ this] textual_Or.IH show ?case by simp
next
  case (textual_Mult g n m0)
  from textual_Mult.prems
  have run: "Mult_loop (string_reader input) (State (string_reader input) c) n
          (if m0 = 0 then MaxInt else m0) g 0 [] c = (Return m None, c')"
    by (simp add: Mult_def Let_def)
  have S: "cf = cb" if "g (string_reader input) cb = (Return y (Some e), cf)" "\<not> isFE e" for cb y e cf
    using built_failure_restores [OF string_reader_law textual_built [OF textual_Mult.hyps] that] .
  from Mult_loop_text [OF _ _ run] textual_Mult.IH S show ?case by simp
next
  case (textual_Optional g)
  from textual_Optional.prems
  have run: "Mult_loop (string_reader input) (State (string_reader input) c) 0 1 g 0 [] c = (Return m None, c')"
    by (simp add: Optional_def Mult_def Let_def)
  have S: "cf = cb" if "g (string_reader input) cb = (Return y (Some e), cf)" "\<not> isFE e" for cb y e cf
    using built_failure_restores [OF string_reader_law textual_built [OF textual_Optional.hyps] that] .
  from Mult_loop_text [OF _ _ run] textual_Optional.IH S show ?case by simp
next
  case (textual_Require gs)
  from textual_Require.prems
  have "And_loop (string_reader input) (State (string_reader input) c) gs [] c = (Return m None, c')"
    by (auto simp: Require_def And_def Let_def split: prod.splits outcome.splits option.splits)
  from And_loop_text [OF _ this] textual_Require.IH show ?case by simp
next
  case (textual_Resolve g)
  from textual_Resolve.prems have "g (string_reader input) c = (Return m None, c')"
    by (simp add: Resolve_def)
  from textual_Resolve.IH [OF this] show ?case .
qed

theorem String_of_textual_match_witness:
  "textual plain_class_regexp
     (And [Lit ''a'', Or [Lit ''b'', Set plain_class_regexp ''cd''], Mult 0 0 (Lit ''e'')]
        :: (nat, nat) Grammar)
   \<and> And [Lit ''a'', Or [Lit ''b'', Set plain_class_regexp ''cd''], Mult 0 0 (Lit ''e'')]
         (string_reader ''xadeef'') 1
       = (Return (Sequence [Scalar ''a'', Scalar ''d'', Sequence [Scalar ''e'', Scalar ''e'']]) None, 5)
   \<and> String (Sequence [Scalar ''a'', Scalar ''d'', Sequence [Scalar ''e'', Scalar ''e'']])
       = take (5 - 1) (drop 1 ''xadeef'')"
proof -
  let ?g = "And [Lit ''a'', Or [Lit ''b'', Set plain_class_regexp ''cd''], Mult 0 0 (Lit ''e'')]
              :: (nat, nat) Grammar"
  have t: "textual plain_class_regexp ?g"
    by (auto intro!: textual.intros)
  have run: "?g (string_reader ''xadeef'') 1
       = (Return (Sequence [Scalar ''a'', Scalar ''d'', Sequence [Scalar ''e'', Scalar ''e'']]) None, 5)"
    by (simp add: And_def Or_def Mult_def Mult_loop.simps MaxInt_def Lit_def Set_def
        plain_class_regexp_def plain_def string_reader_def Let_def)
  from String_of_textual_match [OF t run] t run show ?thesis by simp
qed

section \<open>\<open>Mult\<close>: the bounds of the repetition\<close>

text \<open>
  C7 as it is written has \<open>Mult\<close>, when an attempt at or after the minimum fails
  recoverably, succeed with the cursor after the last successful application. \<open>Mult\<close>
  restores nothing on this path: it returns with the cursor as the failed attempt left
  it. Over the text \<open>ab\<close>, the child below succeeds once, leaving the cursor at 1, and
  its second attempt fails, not fatally, with the cursor at 2; \<open>Mult(0, 0, ...)\<close> then
  succeeds with the one match and the cursor at 2.
\<close>

theorem Mult_counterexample_cursor_after_late_failure:
  "applications 1 (Node (Or [Lit ''a'', Lit ''b'']) reject_b) (string_reader ''ab'') 0
     = Some ([Scalar ''a''], 1)
   \<and> Node (Or [Lit ''a'', Lit ''b'']) reject_b (string_reader ''ab'') 1
     = (Return Nil (Some (External ''rejected'')), 2)
   \<and> Mult 0 0 (Node (Or [Lit ''a'', Lit ''b'']) reject_b) (string_reader ''ab'') 0
     = (Return (Sequence [Scalar ''a'']) None, 2)"
  by (simp add: Mult_def Mult_loop.simps MaxInt_def Node_def Or_def Lit_def reject_b_def
      string_reader_def)

text \<open>
  C7, amended. \<open>Mult(n, m, g)\<close>, where \<open>m = 0\<close> stands for the largest \<open>int\<close>. Let \<open>g\<close>
  succeed \<open>k\<close> times in a row from the entry state, with matches \<open>ms\<close>, and fail on the
  next attempt with an error that is not fatal, fewer than the maximum having succeeded.
  If \<open>n \<le> k\<close>, \<open>Mult\<close> succeeds with the \<open>k\<close> matches and the cursor in the state
  \<open>c'\<close> in which the failed attempt left it; that is the state \<open>ck\<close> after the last
  successful application when the failed attempt has backed out its own reads, as does, on
  a cursor whose restore gives back the captured state, every grammar built from the
  combinators in which no transform of a \<open>Node\<close> fails recoverably. If \<open>k < n\<close>,
  \<open>Mult\<close> fails with that error after restoring its entry checkpoint; on such a cursor,
  the cursor is where it was. In particular: \<open>Mult(2, 4, g)\<close> with exactly three
  applications succeeds with three matches, with one application it fails and restores,
  and \<open>Mult(0, 0, g)\<close> with no application succeeds with the empty sequence.
\<close>

theorem Mult_repetition_bounds:
  "(applications k g sr c = Some (ms, ck) \<and> g sr ck = (Return x (Some e), c') \<and> \<not> isFE e
      \<and> n \<le> int k \<and> int k < (if m = 0 then MaxInt else m)
     \<longrightarrow> Mult n m g sr c = (Return (Sequence ms) None, c') \<and> length ms = k)
   \<and> ((\<forall>a b. RestoreState sr (State sr a) b = a) \<and> built rx g
      \<and> applications k g sr c = Some (ms, ck) \<and> g sr ck = (Return x (Some e), c') \<and> \<not> isFE e
      \<and> n \<le> int k \<and> int k < (if m = 0 then MaxInt else m)
     \<longrightarrow> Mult n m g sr c = (Return (Sequence ms) None, ck))
   \<and> (applications k g sr c = Some (ms, ck) \<and> g sr ck = (Return x (Some e), c') \<and> \<not> isFE e
      \<and> int k < n \<and> int k < (if m = 0 then MaxInt else m)
     \<longrightarrow> Mult n m g sr c = (Return Nil (Some e), RestoreState sr (State sr c) c')
         \<and> ((\<forall>a b. RestoreState sr (State sr a) b = a) \<longrightarrow>
              Mult n m g sr c = (Return Nil (Some e), c)))
   \<and> (applications 3 g sr c = Some (ms, ck) \<and> g sr ck = (Return x (Some e), c') \<and> \<not> isFE e
     \<longrightarrow> Mult 2 4 g sr c = (Return (Sequence ms) None, c') \<and> length ms = 3)
   \<and> (applications 1 g sr c = Some (ms, ck) \<and> g sr ck = (Return x (Some e), c') \<and> \<not> isFE e
     \<longrightarrow> Mult 2 4 g sr c = (Return Nil (Some e), RestoreState sr (State sr c) c'))
   \<and> (g sr c = (Return x (Some e), c') \<and> \<not> isFE e
     \<longrightarrow> Mult 0 0 g sr c = (Return (Sequence []) None, c'))"
proof -
  have stop: "Mult n' m' g sr c = (Return (Sequence ms) None, c') \<and> length ms = k'"
    if "applications k' g sr c = Some (ms, ck)" "g sr ck = (Return x (Some e), c')" "\<not> isFE e"
      "n' \<le> int k'" "int k' < (if m' = 0 then MaxInt else m')" for n' m' k' ms ck
    using Mult_stops_on_failure [OF that(1) that(5) that(2), of n'] that(3,4)
      applications_length [OF that(1)] by simp
  have few: "Mult n' m' g sr c = (Return Nil (Some e), RestoreState sr (State sr c) c')"
    if "applications k' g sr c = Some (ms, ck)" "g sr ck = (Return x (Some e), c')" "\<not> isFE e"
      "int k' < n'" "int k' < (if m' = 0 then MaxInt else m')" for n' m' k' ms ck
    using Mult_stops_on_failure [OF that(1) that(5) that(2), of n'] that(3,4) by simp
  have a: "applications k g sr c = Some (ms, ck) \<and> g sr ck = (Return x (Some e), c') \<and> \<not> isFE e
      \<and> n \<le> int k \<and> int k < (if m = 0 then MaxInt else m)
     \<longrightarrow> Mult n m g sr c = (Return (Sequence ms) None, c') \<and> length ms = k"
    using stop [of k ms ck n m] by blast
  have restored: "c' = ck"
    if "\<forall>a b. RestoreState sr (State sr a) b = a" "built rx g"
      "g sr ck = (Return x (Some e), c')" "\<not> isFE e"
    using that by (rule built_failure_restores)
  have a': "(\<forall>a b. RestoreState sr (State sr a) b = a) \<and> built rx g
      \<and> applications k g sr c = Some (ms, ck) \<and> g sr ck = (Return x (Some e), c') \<and> \<not> isFE e
      \<and> n \<le> int k \<and> int k < (if m = 0 then MaxInt else m)
     \<longrightarrow> Mult n m g sr c = (Return (Sequence ms) None, ck)"
    using a restored by blast
  have b: "applications k g sr c = Some (ms, ck) \<and> g sr ck = (Return x (Some e), c') \<and> \<not> isFE e
      \<and> int k < n \<and> int k < (if m = 0 then MaxInt else m)
     \<longrightarrow> Mult n m g sr c = (Return Nil (Some e), RestoreState sr (State sr c) c')
         \<and> ((\<forall>a b. RestoreState sr (State sr a) b = a) \<longrightarrow>
              Mult n m g sr c = (Return Nil (Some e), c))"
    using few [of k ms ck n m] by auto
  have p1: "applications 3 g sr c = Some (ms, ck) \<and> g sr ck = (Return x (Some e), c') \<and> \<not> isFE e
     \<longrightarrow> Mult 2 4 g sr c = (Return (Sequence ms) None, c') \<and> length ms = 3"
    using stop [of 3 ms ck 2 4] by simp
  have p2: "applications 1 g sr c = Some (ms, ck) \<and> g sr ck = (Return x (Some e), c') \<and> \<not> isFE e
     \<longrightarrow> Mult 2 4 g sr c = (Return Nil (Some e), RestoreState sr (State sr c) c')"
    using few [of 1 ms ck 2 4] by simp
  have p3: "g sr c = (Return x (Some e), c') \<and> \<not> isFE e
     \<longrightarrow> Mult 0 0 g sr c = (Return (Sequence []) None, c')"
    using stop [of 0 "[]" c 0 0] by (simp add: MaxInt_def)
  from a a' b p1 p2 p3 show ?thesis by blast
qed

theorem Mult_repetition_bounds_witness:
  "Mult 2 0 (Lit ''a'') (string_reader ''aaab'') 0
     = (Return (Sequence [Scalar ''a'', Scalar ''a'', Scalar ''a'']) None, 3)
   \<and> Mult 2 4 (Lit ''a'') (string_reader ''aaab'') 0
     = (Return (Sequence [Scalar ''a'', Scalar ''a'', Scalar ''a'']) None, 3)
   \<and> Mult 2 4 (Lit ''a'') (string_reader ''ab'') 0
     = (Return Nil (Some (Errorf ''Expected %q, got %q'' [ARune (CHR ''a''), ARune (CHR ''b'')])), 0)
   \<and> Mult 0 0 (Lit ''a'') (string_reader ''b'') 0 = (Return (Sequence []) None, 0)
   \<and> Mult 1 0 (Node (Or [Lit ''a'', Lit ''b'']) reject_b) (string_reader ''ab'') 0
     = (Return (Sequence [Scalar ''a'']) None, 2)"
proof -
  let ?e = "Errorf ''Expected %q, got %q'' [ARune (CHR ''a''), ARune (CHR ''b'')]"
  let ?h = "Node (Or [Lit ''a'', Lit ''b'']) reject_b :: (nat, nat) Grammar"
  have three: "applications 3 (Lit ''a'') (string_reader ''aaab'') 0
                 = Some ([Scalar ''a'', Scalar ''a'', Scalar ''a''], 3)"
    by (simp add: eval_nat_numeral Lit_def string_reader_def)
  have fourth: "Lit ''a'' (string_reader ''aaab'') 3 = (Return Nil (Some ?e), 3)"
    by (simp add: Lit_def string_reader_def)
  have one: "applications 1 (Lit ''a'') (string_reader ''ab'') 0 = Some ([Scalar ''a''], 1)"
    by (simp add: Lit_def string_reader_def)
  have second: "Lit ''a'' (string_reader ''ab'') 1 = (Return Nil (Some ?e), 1)"
    by (simp add: Lit_def string_reader_def)
  have none: "Lit ''a'' (string_reader ''b'') 0 = (Return Nil (Some ?e), 0)"
    by (simp add: Lit_def string_reader_def)
  have law: "\<forall>a b. RestoreState (string_reader input) (State (string_reader input) a) b = a" for input
    by (simp add: string_reader_def)
  have lit: "built plain_class_regexp (Lit ''a'' :: (nat, nat) Grammar)"
    by (rule built_Lit)
  have unbounded: "int k < (if (0::int) = 0 then MaxInt else 0)" if "k \<le> 3" for k
    using that by (simp add: MaxInt_def)
  have h_one: "applications 1 ?h (string_reader ''ab'') 0 = Some ([Scalar ''a''], 1)"
    by (simp add: Node_def Or_def Lit_def reject_b_def string_reader_def)
  have h_second: "?h (string_reader ''ab'') 1 = (Return Nil (Some (External ''rejected'')), 2)"
    by (simp add: Node_def Or_def Lit_def reject_b_def string_reader_def)
  from Mult_repetition_bounds [where g = "Lit ''a''" and sr = "string_reader ''aaab''" and c = 0
         and k = 3 and ms = "[Scalar ''a'', Scalar ''a'', Scalar ''a'']" and ck = 3 and c' = 3
         and x = Nil and e = ?e and n = 2 and m = 0 and rx = plain_class_regexp]
       three fourth unbounded [of 3] law [of "''aaab''"] lit
  have r1: "Mult 2 0 (Lit ''a'') (string_reader ''aaab'') 0
              = (Return (Sequence [Scalar ''a'', Scalar ''a'', Scalar ''a'']) None, 3)"
    and r2: "Mult 2 4 (Lit ''a'') (string_reader ''aaab'') 0
              = (Return (Sequence [Scalar ''a'', Scalar ''a'', Scalar ''a'']) None, 3)"
    by simp_all
  from Mult_repetition_bounds [where g = "Lit ''a''" and sr = "string_reader ''ab''" and c = 0
         and k = 1 and ms = "[Scalar ''a'']" and ck = 1 and c' = 1
         and x = Nil and e = ?e and n = 2 and m = 4 and rx = plain_class_regexp]
       one second law [of "''ab''"]
  have r3: "Mult 2 4 (Lit ''a'') (string_reader ''ab'') 0 = (Return Nil (Some ?e), 0)"
    by simp
  from Mult_repetition_bounds [where g = "Lit ''a''" and sr = "string_reader ''b''" and c = 0
         and c' = 0 and x = Nil and e = ?e and k = 0 and ms = "[]" and ck = 0 and n = 0 and m = 0
         and rx = plain_class_regexp]
       none
  have r4: "Mult 0 0 (Lit ''a'') (string_reader ''b'') 0 = (Return (Sequence []) None, 0)"
    by simp
  from Mult_repetition_bounds [where g = ?h and sr = "string_reader ''ab''" and c = 0
         and k = 1 and ms = "[Scalar ''a'']" and ck = 1 and c' = 2
         and x = Nil and e = "External ''rejected''" and n = 1 and m = 0 and rx = plain_class_regexp]
       h_one h_second unbounded [of 1]
  have r5: "Mult 1 0 ?h (string_reader ''ab'') 0 = (Return (Sequence [Scalar ''a'']) None, 2)"
    by simp
  from r1 r2 r3 r4 r5 show ?thesis by simp
qed

end
